theory Spec2Isabelle
  imports Main "HOL-Library.Sublist"
begin

section \<open>Constants and configuration\<close>

text \<open>
  Cell values and players are JavaScript numbers in the source
  (\<open>EMPTY = 0\<close>, \<open>BLACK = 1\<close>, \<open>WHITE = 2\<close>); they are integers here.
  Coordinates are integers as well, because the scanning loops step off the board
  (row \<open>-1\<close>) before \<open>in_bounds\<close> stops them.
\<close>

abbreviation (input) EMPTY :: int where "EMPTY \<equiv> 0"
abbreviation (input) BLACK :: int where "BLACK \<equiv> 1"
abbreviation (input) WHITE :: int where "WHITE \<equiv> 2"

definition DIRECTIONS :: "(int \<times> int) list" where
  "DIRECTIONS =
     [(-1, -1), (-1, 0), (-1, 1),
      (0, -1),           (0, 1),
      (1, -1),  (1, 0),  (1, 1)]"

definition DEFAULT_SIZE :: nat where
  "DEFAULT_SIZE = 8"

definition AI_DEPTH_MAP :: "string \<rightharpoonup> nat" where
  "AI_DEPTH_MAP = [''easy'' \<mapsto> 2, ''medium'' \<mapsto> 4, ''hard'' \<mapsto> 6]"

section \<open>Data model\<close>

type_synonym board = "int list list"
type_synonym move = "int \<times> int"

text \<open>
  JavaScript numbers as the search uses them: integers together with
  \<open>-Infinity\<close> and \<open>Infinity\<close>, the initial values of \<open>alpha\<close>, \<open>beta\<close>,
  \<open>max_eval\<close>, \<open>min_eval\<close> and \<open>best_score\<close>.
\<close>

datatype num = NegInf | Fin int | PosInf

fun num_le :: "num \<Rightarrow> num \<Rightarrow> bool" where
  "num_le NegInf _ = True"
| "num_le _ PosInf = True"
| "num_le (Fin a) (Fin b) = (a \<le> b)"
| "num_le _ _ = False"

definition num_less :: "num \<Rightarrow> num \<Rightarrow> bool" where
  "num_less a b = (\<not> num_le b a)"

definition num_max :: "num \<Rightarrow> num \<Rightarrow> num" where
  "num_max a b = (if num_le a b then b else a)"

definition num_min :: "num \<Rightarrow> num \<Rightarrow> num" where
  "num_min a b = (if num_le a b then a else b)"

text \<open>
  The fields of \<open>OthelloGame\<close>. \<open>size\<close> is called \<open>gsize\<close> (the name \<open>size\<close> is taken
  in HOL). A history entry \<open>{board, current_player}\<close> is a pair; a move-log entry
  \<open>[player, [row, col]]\<close> is a pair of a player and a move. The history holds copies
  made by \<open>copy_board\<close>, so it is a list of board values.
\<close>

record game =
  gsize :: nat
  board :: board
  current_player :: int
  last_placed_move :: "move option"
  game_over :: bool
  opponent_type :: string
  ai_depth :: nat
  player_color :: int
  ai_player :: int
  dynamic_depth :: bool
  move_history :: "(board \<times> int) list"
  move_log :: "(int \<times> move) list"
  position_weights :: "int list list"
  transposition_table :: "string \<rightharpoonup> num"

text \<open>
  \<open>board[r][c]\<close> and \<open>board[r][c] = v\<close>. Every read and write of the source is
  guarded by \<open>in_bounds\<close> or by a loop over \<open>0 \<le> r, c < size\<close>, so on a board of
  \<open>size\<close> rows of \<open>size\<close> cells (the well-formedness hypothesis of the theorems below)
  no access is out of range.
\<close>

definition cell_at :: "board \<Rightarrow> int \<Rightarrow> int \<Rightarrow> int" where
  "cell_at b r c = b ! nat r ! nat c"

definition set_cell :: "board \<Rightarrow> int \<Rightarrow> int \<Rightarrow> int \<Rightarrow> board" where
  "set_cell b r c v = b[nat r := (b ! nat r)[nat c := v]]"

definition copy_board :: "board \<Rightarrow> board" where
  "copy_board b = map (\<lambda>row. row) b"

section \<open>Othello game logic\<close>

definition generate_position_weights :: "nat \<Rightarrow> int list list" where
  "generate_position_weights n =
     map (\<lambda>r. map (\<lambda>c.
         if (int r = 0 \<or> int r = int n - 1) \<and> (int c = 0 \<or> int c = int n - 1) then 120
         else if (int r = 1 \<or> int r = int n - 2) \<and> (int c = 1 \<or> int c = int n - 2) then -20
         else if int r = 0 \<or> int r = int n - 1 \<or> int c = 0 \<or> int c = int n - 1 then 20
         else 1) [0..<n]) [0..<n]"

text \<open>
  The constructor. For \<open>size < 2\<close> the initial placement writes to
  \<open>this.board[mid-1]\<close> with \<open>mid - 1 = -1\<close>, which is \<open>undefined\<close>, and the
  constructor throws a TypeError: the result is \<open>None\<close>.
\<close>

definition OthelloGame :: "nat \<Rightarrow> string \<Rightarrow> string \<Rightarrow> string \<Rightarrow> bool \<Rightarrow> game option" where
  "OthelloGame n opp_type ai_difficulty color dyn =
     (if n < 2 then None
      else
        let b0 = replicate n (replicate n EMPTY);
            mid = int (n div 2);
            b1 = set_cell b0 (mid - 1) (mid - 1) WHITE;
            b2 = set_cell b1 mid mid WHITE;
            b3 = set_cell b2 (mid - 1) mid BLACK;
            b4 = set_cell b3 mid (mid - 1) BLACK;
            pc = (if color = ''B'' then BLACK else WHITE)
        in Some \<lparr> gsize = n, board = b4, current_player = BLACK,
                  last_placed_move = None, game_over = False,
                  opponent_type = opp_type,
                  ai_depth = (case AI_DEPTH_MAP ai_difficulty of
                                Some d \<Rightarrow> (if d = 0 then 2 else d) | None \<Rightarrow> 2),
                  player_color = pc,
                  ai_player = (if pc = BLACK then WHITE else BLACK),
                  dynamic_depth = dyn,
                  move_history = [(copy_board b4, BLACK)],
                  move_log = [],
                  position_weights = generate_position_weights n,
                  transposition_table = Map.empty \<rparr>)"

text \<open>
  The nested loops \<open>for r < size, for c < size\<close> of the source visit the cells in
  row-major order; \<open>all_cells\<close> is that sequence of coordinates.
\<close>

definition all_cells :: "nat \<Rightarrow> move list" where
  "all_cells n = [(int r, int c). r \<leftarrow> [0..<n], c \<leftarrow> [0..<n]]"

definition count_cells :: "game \<Rightarrow> int \<Rightarrow> nat" where
  "count_cells g v =
     length (filter (\<lambda>(r, c). cell_at (board g) r c = v) (all_cells (gsize g)))"

definition black_count :: "game \<Rightarrow> nat" where
  "black_count g = count_cells g BLACK"

definition white_count :: "game \<Rightarrow> nat" where
  "white_count g = count_cells g WHITE"

definition in_bounds :: "game \<Rightarrow> int \<Rightarrow> int \<Rightarrow> bool" where
  "in_bounds g row col =
     (row \<ge> 0 \<and> row < int (gsize g) \<and> col \<ge> 0 \<and> col < int (gsize g))"

definition opponent :: "int \<Rightarrow> int" where
  "opponent player = (if player = BLACK then WHITE else BLACK)"

text \<open>
  The inner \<open>while\<close> loop of \<open>can_flip\<close>, for one direction \<open>(dr, dc)\<close>; it returns
  the values of \<open>rr\<close>, \<open>cc\<close> and \<open>found_opponent\<close> at the exit. The source runs it only
  for the eight entries of \<open>DIRECTIONS\<close>, none of which is \<open>(0, 0)\<close>; the first
  conjunct records that, and is what makes the walk leave the board.
\<close>

function can_flip_scan ::
  "game \<Rightarrow> int \<Rightarrow> int \<Rightarrow> int \<Rightarrow> int \<Rightarrow> int \<Rightarrow> bool \<Rightarrow> int \<times> int \<times> bool" where
  "can_flip_scan g opp dr dc rr cc found_opponent =
     (if (dr \<noteq> 0 \<or> dc \<noteq> 0) \<and> in_bounds g rr cc \<and> cell_at (board g) rr cc = opp
      then can_flip_scan g opp dr dc (rr + dr) (cc + dc) True
      else (rr, cc, found_opponent))"
  by pat_completeness auto
termination
  by (relation "measure (\<lambda>(g, opp, dr, dc, rr, cc, f).
        if dr > 0 then nat (int (gsize g) - rr)
        else if dr < 0 then nat (rr + 1)
        else if dc > 0 then nat (int (gsize g) - cc)
        else nat (cc + 1))")
     (auto simp: in_bounds_def)

fun can_flip_dirs :: "game \<Rightarrow> int \<Rightarrow> int \<Rightarrow> int \<Rightarrow> (int \<times> int) list \<Rightarrow> bool" where
  "can_flip_dirs g row col player [] = False"
| "can_flip_dirs g row col player ((dr, dc) # ds) =
     (case can_flip_scan g (opponent player) dr dc (row + dr) (col + dc) False of
        (rr, cc, found_opponent) \<Rightarrow>
          if found_opponent \<and> in_bounds g rr cc \<and> cell_at (board g) rr cc = player
          then True
          else can_flip_dirs g row col player ds)"

definition can_flip :: "game \<Rightarrow> int \<Rightarrow> int \<Rightarrow> int \<Rightarrow> bool" where
  "can_flip g row col player =
     (if cell_at (board g) row col \<noteq> EMPTY then False
      else can_flip_dirs g row col player DIRECTIONS)"

definition valid_moves :: "game \<Rightarrow> int \<Rightarrow> move list" where
  "valid_moves g player =
     filter (\<lambda>(r, c). cell_at (board g) r c = EMPTY \<and> can_flip g r c player)
            (all_cells (gsize g))"

text \<open>
  The inner \<open>while\<close> loop of \<open>flip_discs\<close> for one direction: it collects the
  opponent discs of the run in \<open>discs_to_flip\<close>.
\<close>

function flip_discs_scan ::
  "game \<Rightarrow> int \<Rightarrow> int \<Rightarrow> int \<Rightarrow> int \<Rightarrow> int \<Rightarrow> move list \<Rightarrow> int \<times> int \<times> move list" where
  "flip_discs_scan g opp dr dc rr cc discs_to_flip =
     (if (dr \<noteq> 0 \<or> dc \<noteq> 0) \<and> in_bounds g rr cc \<and> cell_at (board g) rr cc = opp
      then flip_discs_scan g opp dr dc (rr + dr) (cc + dc) (discs_to_flip @ [(rr, cc)])
      else (rr, cc, discs_to_flip))"
  by pat_completeness auto
termination
  by (relation "measure (\<lambda>(g, opp, dr, dc, rr, cc, ds).
        if dr > 0 then nat (int (gsize g) - rr)
        else if dr < 0 then nat (rr + 1)
        else if dc > 0 then nat (int (gsize g) - cc)
        else nat (cc + 1))")
     (auto simp: in_bounds_def)

text \<open>
  The body of the \<open>for\<close> loop of \<open>flip_discs\<close> for one direction; the board of the
  game is updated in place in the source, and returned updated here.
\<close>

definition flip_discs_dir :: "int \<Rightarrow> int \<Rightarrow> int \<Rightarrow> game \<Rightarrow> int \<times> int \<Rightarrow> game" where
  "flip_discs_dir row col player g d =
     (case d of (dr, dc) \<Rightarrow>
        (case flip_discs_scan g (opponent player) dr dc (row + dr) (col + dc) [] of
           (rr, cc, discs_to_flip) \<Rightarrow>
             if in_bounds g rr cc \<and> cell_at (board g) rr cc = player \<and> length discs_to_flip > 0
             then g\<lparr>board := foldl (\<lambda>b (fr, fc). set_cell b fr fc player) (board g) discs_to_flip\<rparr>
             else g))"

definition flip_discs :: "game \<Rightarrow> int \<Rightarrow> int \<Rightarrow> int \<Rightarrow> game" where
  "flip_discs g row col player = foldl (flip_discs_dir row col player) g DIRECTIONS"

text \<open>
  \<open>place_piece\<close> returns its boolean together with the updated game. The \<open>||\<close> of the
  guard is short-circuit: \<open>can_flip\<close> is not evaluated out of bounds.
\<close>

definition place_piece :: "game \<Rightarrow> int \<Rightarrow> int \<Rightarrow> int \<Rightarrow> bool \<times> game" where
  "place_piece g row col player =
     (if \<not> in_bounds g row col then (False, g)
      else if \<not> can_flip g row col player then (False, g)
      else
        let g1 = g\<lparr>board := set_cell (board g) row col player\<rparr>;
            g2 = flip_discs g1 row col player;
            g3 = g2\<lparr>last_placed_move := Some (row, col)\<rparr>;
            g4 = g3\<lparr>move_history := move_history g3 @ [(copy_board (board g3), current_player g3)]\<rparr>;
            g5 = g4\<lparr>move_log := move_log g4 @ [(player, (row, col))]\<rparr>
        in (True, g5))"

definition switch_player :: "game \<Rightarrow> game" where
  "switch_player g = g\<lparr>current_player := opponent (current_player g)\<rparr>"

definition is_game_over :: "game \<Rightarrow> bool" where
  "is_game_over g =
     (if length (valid_moves g BLACK) > 0 then False
      else if length (valid_moves g WHITE) > 0 then False
      else True)"

definition has_valid_moves :: "game \<Rightarrow> int \<Rightarrow> bool" where
  "has_valid_moves g player = (length (valid_moves g player) > 0)"

text \<open>
  \<open>evaluate_board\<close>: the two nested loops visit the cells in row-major order and
  accumulate \<open>player_score\<close> and \<open>opp_score\<close>.
\<close>

definition evaluate_step :: "game \<Rightarrow> board \<Rightarrow> int \<Rightarrow> int \<times> int \<Rightarrow> move \<Rightarrow> int \<times> int" where
  "evaluate_step g b player acc m =
     (case acc of (player_score, opp_score) \<Rightarrow>
      case m of (r, c) \<Rightarrow>
        let piece = cell_at b r c;
            w = cell_at (position_weights g) r c
        in if piece = player then (player_score + w, opp_score)
           else if piece = opponent player then (player_score, opp_score + w)
           else (player_score, opp_score))"

definition evaluate_board :: "game \<Rightarrow> board \<Rightarrow> int \<Rightarrow> int" where
  "evaluate_board g b player =
     (case foldl (evaluate_step g b player) (0, 0) (all_cells (gsize g)) of
        (player_score, opp_score) \<Rightarrow> player_score - opp_score)"

text \<open>
  The \<open>while\<close> loop of \<open>is_valid_move_in_state\<close> for one direction. The result is
  \<open>True\<close> when the loop executes \<open>return true\<close>, and \<open>False\<close> when it ends by
  \<open>break\<close> or by leaving the board.
\<close>

function is_valid_scan ::
  "game \<Rightarrow> board \<Rightarrow> int \<Rightarrow> int \<Rightarrow> int \<Rightarrow> int \<Rightarrow> int \<Rightarrow> bool \<Rightarrow> bool" where
  "is_valid_scan g b player dr dc r c has_opponent =
     (if (dr \<noteq> 0 \<or> dc \<noteq> 0) \<and> r \<ge> 0 \<and> r < int (gsize g) \<and> c \<ge> 0 \<and> c < int (gsize g)
      then (if cell_at b r c = opponent player
            then is_valid_scan g b player dr dc (r + dr) (c + dc) True
            else if cell_at b r c = player \<and> has_opponent then True
            else False)
      else False)"
  by pat_completeness auto
termination
  by (relation "measure (\<lambda>(g, b, player, dr, dc, r, c, h).
        if dr > 0 then nat (int (gsize g) - r)
        else if dr < 0 then nat (r + 1)
        else if dc > 0 then nat (int (gsize g) - c)
        else nat (c + 1))")
     auto

fun is_valid_dirs :: "game \<Rightarrow> board \<Rightarrow> int \<Rightarrow> int \<Rightarrow> int \<Rightarrow> (int \<times> int) list \<Rightarrow> bool" where
  "is_valid_dirs g b row col player [] = False"
| "is_valid_dirs g b row col player ((dr, dc) # ds) =
     (if is_valid_scan g b player dr dc (row + dr) (col + dc) False then True
      else is_valid_dirs g b row col player ds)"

definition is_valid_move_in_state :: "game \<Rightarrow> board \<Rightarrow> int \<Rightarrow> int \<Rightarrow> int \<Rightarrow> bool" where
  "is_valid_move_in_state g b row col player =
     (if cell_at b row col \<noteq> EMPTY then False
      else is_valid_dirs g b row col player DIRECTIONS)"

definition has_valid_moves_in_state :: "game \<Rightarrow> board \<Rightarrow> int \<Rightarrow> bool" where
  "has_valid_moves_in_state g b player =
     list_ex (\<lambda>(r, c). is_valid_move_in_state g b r c player) (all_cells (gsize g))"

definition get_valid_moves_in_state :: "game \<Rightarrow> board \<Rightarrow> int \<Rightarrow> move list" where
  "get_valid_moves_in_state g b player =
     filter (\<lambda>(r, c). is_valid_move_in_state g b r c player) (all_cells (gsize g))"

definition is_terminal_state :: "game \<Rightarrow> board \<Rightarrow> bool" where
  "is_terminal_state g b =
     (\<not> has_valid_moves_in_state g b BLACK \<and> \<not> has_valid_moves_in_state g b WHITE)"

definition undo_move :: "game \<Rightarrow> bool \<times> game" where
  "undo_move g =
     (if length (move_history g) > 1 then
        let g1 = g\<lparr>move_history := butlast (move_history g)\<rparr>;
            prev = last (move_history g1);
            g2 = g1\<lparr>board := copy_board (fst prev)\<rparr>;
            g3 = g2\<lparr>current_player := snd prev\<rparr>;
            g4 = (if length (move_log g3) > 0 then g3\<lparr>move_log := butlast (move_log g3)\<rparr> else g3);
            g5 = g4\<lparr>last_placed_move := None\<rparr>;
            g6 = g5\<lparr>game_over := is_game_over g5\<rparr>
        in (True, g6)
      else (False, g))"

section \<open>Specification vocabulary\<close>

text \<open>
  A board of the game is well formed when it has \<open>size\<close> rows of \<open>size\<close> cells
  (\<open>board_shape\<close>) and every cell is Empty, Black or White.
\<close>

definition board_shape :: "nat \<Rightarrow> 'a list list \<Rightarrow> bool" where
  "board_shape n b = (length b = n \<and> list_all (\<lambda>row. length row = n) b)"

definition wf_board :: "nat \<Rightarrow> board \<Rightarrow> bool" where
  "wf_board n b =
     (board_shape n b \<and> list_all (list_all (\<lambda>v. v = EMPTY \<or> v = BLACK \<or> v = WHITE)) b)"

text \<open>
  \<open>opp_run g b v dr dc r c n\<close>: the \<open>n\<close> cells \<open>(r, c), (r + dr, c + dc), \<dots>\<close> are
  on the board and hold \<open>v\<close>.
\<close>

definition opp_run :: "game \<Rightarrow> board \<Rightarrow> int \<Rightarrow> int \<Rightarrow> int \<Rightarrow> int \<Rightarrow> int \<Rightarrow> nat \<Rightarrow> bool" where
  "opp_run g b v dr dc r c n =
     list_all (\<lambda>k. in_bounds g (r + int k * dr) (c + int k * dc) \<and>
                    cell_at b (r + int k * dr) (c + int k * dc) = v) [0..<n]"

text \<open>
  The legality condition in the words of the specification: in direction \<open>(dr, dc)\<close>
  there is a contiguous run of \<open>n \<ge> 1\<close> opponent discs starting adjacent to
  \<open>(row, col)\<close> and immediately followed by a disc of the mover's colour.
\<close>

definition bracketed_run :: "game \<Rightarrow> int \<Rightarrow> int \<Rightarrow> int \<Rightarrow> int \<times> int \<Rightarrow> nat \<Rightarrow> bool" where
  "bracketed_run g row col player d n =
     (case d of (dr, dc) \<Rightarrow>
        n \<ge> 1 \<and>
        list_all (\<lambda>k. in_bounds g (row + int k * dr) (col + int k * dc) \<and>
                       cell_at (board g) (row + int k * dr) (col + int k * dc) = opponent player)
                 [1..<n + 1] \<and>
        in_bounds g (row + int (n + 1) * dr) (col + int (n + 1) * dc) \<and>
        cell_at (board g) (row + int (n + 1) * dr) (col + int (n + 1) * dc) = player)"

text \<open>
  The search for a witness of \<open>bracketed_run\<close>: no run is longer than the board.
\<close>

definition legal_move :: "game \<Rightarrow> int \<Rightarrow> int \<Rightarrow> int \<Rightarrow> bool" where
  "legal_move g row col player =
     (in_bounds g row col \<and> cell_at (board g) row col = EMPTY \<and>
      list_ex (\<lambda>d. list_ex (bracketed_run g row col player d) [1..<gsize g]) DIRECTIONS)"

text \<open>
  \<open>new OthelloGame(n)\<close> with the default values of the other parameters; the
  concrete game on which the theorems are instantiated.
\<close>

definition default_game :: "nat \<Rightarrow> game" where
  "default_game n = the (OthelloGame n ''human'' ''easy'' ''B'' False)"

section \<open>Properties\<close>

declare can_flip_scan.simps [simp del] flip_discs_scan.simps [simp del]
  is_valid_scan.simps [simp del]

subsection \<open>Runs of discs along a direction\<close>

lemma opp_run_iff:
  "opp_run g b v dr dc r c n =
     (\<forall>k<n. in_bounds g (r + int k * dr) (c + int k * dc) \<and>
            cell_at b (r + int k * dr) (c + int k * dc) = v)"
  by (auto simp: opp_run_def list_all_iff)

lemma opp_run_0 [simp]: "opp_run g b v dr dc r c 0"
  by (simp add: opp_run_def)

lemma opp_run_Suc:
  "opp_run g b v dr dc r c (Suc n) =
     (in_bounds g r c \<and> cell_at b r c = v \<and> opp_run g b v dr dc (r + dr) (c + dc) n)"
proof -
  have "(\<forall>k<Suc n. P k) = (P 0 \<and> (\<forall>k<n. P (Suc k)))" for P
    by (metis less_Suc_eq_0_disj)
  then show ?thesis
    by (simp add: opp_run_iff algebra_simps)
qed

lemma opponent_neq [simp]: "opponent p \<noteq> p" "p \<noteq> opponent p"
  by (auto simp: opponent_def)

lemma DIRECTIONS_nonzero: "(dr, dc) \<in> set DIRECTIONS \<Longrightarrow> dr \<noteq> 0 \<or> dc \<noteq> 0"
  by (auto simp: DIRECTIONS_def)

lemma list_all_from_1: "list_all P [1..<n + 1] = (\<forall>k<n. P (Suc k))"
  by (induction n) (auto simp: less_Suc_eq)

lemma bracketed_run_iff:
  "bracketed_run g row col p (dr, dc) n =
     (n \<ge> 1 \<and> opp_run g (board g) (opponent p) dr dc (row + dr) (col + dc) n \<and>
      in_bounds g (row + dr + int n * dr) (col + dc + int n * dc) \<and>
      cell_at (board g) (row + dr + int n * dr) (col + dc + int n * dc) = p)"
  unfolding bracketed_run_def list_all_from_1 opp_run_iff
  by (simp add: algebra_simps)

text \<open>The length of a run that ends on a disc of the mover is determined.\<close>

lemma opp_run_end_unique:
  assumes "opp_run g b (opponent p) dr dc r c n"
      and "\<not> (in_bounds g (r + int n * dr) (c + int n * dc) \<and>
              cell_at b (r + int n * dr) (c + int n * dc) = opponent p)"
      and "opp_run g b (opponent p) dr dc r c m"
      and "in_bounds g (r + int m * dr) (c + int m * dc)"
      and "cell_at b (r + int m * dr) (c + int m * dc) = p"
  shows "n = m"
proof (rule ccontr)
  assume "n \<noteq> m"
  then consider "n < m" | "m < n" by linarith
  then show False
  proof cases
    case 1
    with assms(3) assms(2) show False by (auto simp: opp_run_iff)
  next
    case 2
    with assms(1) have "cell_at b (r + int m * dr) (c + int m * dc) = opponent p"
      by (auto simp: opp_run_iff)
    with assms(5) show False by simp
  qed
qed

lemma can_flip_scan_char:
  assumes "dr \<noteq> 0 \<or> dc \<noteq> 0"
  shows "\<exists>n. can_flip_scan g v dr dc rr cc f = (rr + int n * dr, cc + int n * dc, f \<or> n > 0) \<and>
             opp_run g (board g) v dr dc rr cc n \<and>
             \<not> (in_bounds g (rr + int n * dr) (cc + int n * dc) \<and>
                cell_at (board g) (rr + int n * dr) (cc + int n * dc) = v)"
  using assms
proof (induction g v dr dc rr cc f rule: can_flip_scan.induct)
  case (1 g v dr dc rr cc f)
  show ?case
  proof (cases "in_bounds g rr cc \<and> cell_at (board g) rr cc = v")
    case True
    with 1 obtain n where n:
      "can_flip_scan g v dr dc (rr + dr) (cc + dc) True =
         (rr + dr + int n * dr, cc + dc + int n * dc, True)"
      "opp_run g (board g) v dr dc (rr + dr) (cc + dc) n"
      "\<not> (in_bounds g (rr + dr + int n * dr) (cc + dc + int n * dc) \<and>
          cell_at (board g) (rr + dr + int n * dr) (cc + dc + int n * dc) = v)"
      by auto
    have e: "rr + dr + int n * dr = rr + int (Suc n) * dr" "cc + dc + int n * dc = cc + int (Suc n) * dc"
      by (simp_all add: algebra_simps)
    show ?thesis
      apply (rule exI [of _ "Suc n"])
      apply (subst can_flip_scan.simps)
      using True 1(2) n unfolding e
      by (simp add: opp_run_Suc)
  next
    case False
    show ?thesis
      apply (rule exI [of _ 0])
      apply (subst can_flip_scan.simps)
      using False by auto
  qed
qed

lemma flip_discs_scan_char:
  assumes "dr \<noteq> 0 \<or> dc \<noteq> 0"
  shows "\<exists>n. flip_discs_scan g v dr dc rr cc ds =
               (rr + int n * dr, cc + int n * dc,
                ds @ map (\<lambda>k. (rr + int k * dr, cc + int k * dc)) [0..<n]) \<and>
             opp_run g (board g) v dr dc rr cc n \<and>
             \<not> (in_bounds g (rr + int n * dr) (cc + int n * dc) \<and>
                cell_at (board g) (rr + int n * dr) (cc + int n * dc) = v)"
  using assms
proof (induction g v dr dc rr cc ds rule: flip_discs_scan.induct)
  case (1 g v dr dc rr cc ds)
  show ?case
  proof (cases "in_bounds g rr cc \<and> cell_at (board g) rr cc = v")
    case True
    with 1 obtain n where n:
      "flip_discs_scan g v dr dc (rr + dr) (cc + dc) (ds @ [(rr, cc)]) =
         (rr + dr + int n * dr, cc + dc + int n * dc,
          (ds @ [(rr, cc)]) @ map (\<lambda>k. (rr + dr + int k * dr, cc + dc + int k * dc)) [0..<n])"
      "opp_run g (board g) v dr dc (rr + dr) (cc + dc) n"
      "\<not> (in_bounds g (rr + dr + int n * dr) (cc + dc + int n * dc) \<and>
          cell_at (board g) (rr + dr + int n * dr) (cc + dc + int n * dc) = v)"
      by auto
    have e: "rr + dr + int k * dr = rr + int (Suc k) * dr" "cc + dc + int k * dc = cc + int (Suc k) * dc" for k
      by (simp_all add: algebra_simps)
    have m: "(rr, cc) # map (\<lambda>k. (rr + int (Suc k) * dr, cc + int (Suc k) * dc)) [0..<n]
               = map (\<lambda>k. (rr + int k * dr, cc + int k * dc)) [0..<Suc n]"
      by (simp add: upt_conv_Cons map_Suc_upt [symmetric] del: upt_Suc)
    show ?thesis
      apply (rule exI [of _ "Suc n"])
      apply (subst flip_discs_scan.simps)
      using True 1(2) n m unfolding e
      by (simp add: opp_run_Suc del: upt_Suc)
  next
    case False
    show ?thesis
      apply (rule exI [of _ 0])
      apply (subst flip_discs_scan.simps)
      using False by auto
  qed
qed

lemma can_flip_dir_iff:
  assumes "dr \<noteq> 0 \<or> dc \<noteq> 0"
  shows "(case can_flip_scan g (opponent p) dr dc (row + dr) (col + dc) False of
            (rr, cc, f) \<Rightarrow> f \<and> in_bounds g rr cc \<and> cell_at (board g) rr cc = p)
         = (\<exists>n. bracketed_run g row col p (dr, dc) n)"
proof -
  from can_flip_scan_char [OF assms, of g "opponent p" "row + dr" "col + dc" False]
  obtain n where n:
    "can_flip_scan g (opponent p) dr dc (row + dr) (col + dc) False =
       (row + dr + int n * dr, col + dc + int n * dc, n > 0)"
    "opp_run g (board g) (opponent p) dr dc (row + dr) (col + dc) n"
    "\<not> (in_bounds g (row + dr + int n * dr) (col + dc + int n * dc) \<and>
        cell_at (board g) (row + dr + int n * dr) (col + dc + int n * dc) = opponent p)"
    by auto
  show ?thesis
  proof
    assume "case can_flip_scan g (opponent p) dr dc (row + dr) (col + dc) False of
              (rr, cc, f) \<Rightarrow> f \<and> in_bounds g rr cc \<and> cell_at (board g) rr cc = p"
    with n have "bracketed_run g row col p (dr, dc) n"
      by (simp add: bracketed_run_iff)
    then show "\<exists>n. bracketed_run g row col p (dr, dc) n" ..
  next
    assume "\<exists>n. bracketed_run g row col p (dr, dc) n"
    then obtain m where m: "m \<ge> 1"
      "opp_run g (board g) (opponent p) dr dc (row + dr) (col + dc) m"
      "in_bounds g (row + dr + int m * dr) (col + dc + int m * dc)"
      "cell_at (board g) (row + dr + int m * dr) (col + dc + int m * dc) = p"
      by (auto simp: bracketed_run_iff)
    have "n = m"
      by (rule opp_run_end_unique [OF n(2) n(3) m(2) m(3) m(4)])
    with n m show "case can_flip_scan g (opponent p) dr dc (row + dr) (col + dc) False of
              (rr, cc, f) \<Rightarrow> f \<and> in_bounds g rr cc \<and> cell_at (board g) rr cc = p"
      by simp
  qed
qed

lemma can_flip_dirs_iff:
  assumes "\<forall>(dr, dc)\<in>set ds. dr \<noteq> 0 \<or> dc \<noteq> 0"
  shows "can_flip_dirs g row col p ds = (\<exists>d\<in>set ds. \<exists>n. bracketed_run g row col p d n)"
  using assms
proof (induction ds)
  case Nil
  then show ?case by simp
next
  case (Cons d ds)
  obtain dr dc where d: "d = (dr, dc)" by (cases d)
  with Cons.prems have nz: "dr \<noteq> 0 \<or> dc \<noteq> 0" by simp
  from Cons have ih: "can_flip_dirs g row col p ds = (\<exists>d\<in>set ds. \<exists>n. bracketed_run g row col p d n)"
    by simp
  show ?case
    using can_flip_dir_iff [OF nz, of g p row col] ih
    by (auto simp: d split: prod.splits)
qed

lemma can_flip_iff:
  "can_flip g row col p =
     (cell_at (board g) row col = EMPTY \<and>
      (\<exists>d\<in>set DIRECTIONS. \<exists>n. bracketed_run g row col p d n))"
proof -
  have "\<forall>(dr, dc)\<in>set DIRECTIONS. dr \<noteq> 0 \<or> dc \<noteq> 0"
    using DIRECTIONS_nonzero by auto
  from can_flip_dirs_iff [OF this] show ?thesis
    by (simp add: can_flip_def)
qed

lemma all_cells_nat: "(int i, int j) \<in> set (all_cells n)" if "i < n" "j < n"
proof -
  have "(int i, int j) \<in> (\<lambda>c. (int i, int c)) ` {0..<n}"
    using that by (intro image_eqI [of _ _ j]) simp_all
  then have "\<exists>x\<in>{0..<n}. (int i, int j) \<in> (\<lambda>c. (int x, int c)) ` {0..<n}"
    using that by (intro bexI [of _ i]) simp_all
  then show ?thesis by (simp add: all_cells_def)
qed

lemma all_cells_bounds:
  "(r, c) \<in> set (all_cells n) \<Longrightarrow> 0 \<le> r \<and> r < int n \<and> 0 \<le> c \<and> c < int n"
  by (auto simp: all_cells_def)

lemma set_all_cells: "set (all_cells n) = {(r, c). 0 \<le> r \<and> r < int n \<and> 0 \<le> c \<and> c < int n}"
proof -
  have "(r, c) \<in> set (all_cells n)" if "0 \<le> r" "r < int n" "0 \<le> c" "c < int n" for r c
  proof -
    have "nat r < n" "nat c < n" using that by simp_all
    from all_cells_nat [OF this] show ?thesis using that by simp
  qed
  then show ?thesis using all_cells_bounds by auto
qed

lemma in_all_cells: "(r, c) \<in> set (all_cells (gsize g)) = in_bounds g r c"
  by (auto simp: set_all_cells in_bounds_def)

lemma valid_moves_iff:
  "(r, c) \<in> set (valid_moves g p) =
     (in_bounds g r c \<and> cell_at (board g) r c = EMPTY \<and> can_flip g r c p)"
  by (auto simp: valid_moves_def in_all_cells)

subsection \<open>Reading and writing cells\<close>

lemma board_shape_nth:
  "board_shape n b \<Longrightarrow> i < n \<Longrightarrow> length (b ! i) = n"
  by (simp add: board_shape_def list_all_length)

lemma cell_at_set_cell:
  assumes "board_shape (gsize g) b" "in_bounds g r c" "in_bounds g r' c'"
  shows "cell_at (set_cell b r c v) r' c' = (if r' = r \<and> c' = c then v else cell_at b r' c')"
proof -
  from assms have l: "nat r < length b" "nat r' < length b"
    by (auto simp: board_shape_def in_bounds_def)
  from assms have lr: "nat c < length (b ! nat r)"
    using board_shape_nth [of "gsize g" b "nat r"] by (auto simp: in_bounds_def)
  from assms have e: "(nat r' = nat r) = (r' = r)" "(nat c' = nat c) = (c' = c)"
    by (auto simp: in_bounds_def)
  show ?thesis
    using l lr e by (auto simp: cell_at_def set_cell_def nth_list_update)
qed

lemma board_shape_set_cell:
  assumes "board_shape n b"
  shows "board_shape n (set_cell b r c v)"
proof -
  from assms have len: "length b = n"
    by (simp add: board_shape_def)
  have "length ((set_cell b r c v) ! i) = n" if "i < n" for i
  proof (cases "i = nat r")
    case True
    with that len have "set_cell b r c v ! i = (b ! nat r)[nat c := v]"
      by (simp add: set_cell_def)
    with board_shape_nth [OF assms that] True show ?thesis by simp
  next
    case False
    then have "set_cell b r c v ! i = b ! i"
      by (simp add: set_cell_def)
    with board_shape_nth [OF assms that] show ?thesis by simp
  qed
  with len show ?thesis
    by (simp add: board_shape_def list_all_length set_cell_def)
qed

lemma foldl_set_cell:
  assumes "board_shape (gsize g) b" "\<forall>(r, c)\<in>set ds. in_bounds g r c"
  shows "board_shape (gsize g) (foldl (\<lambda>b (fr, fc). set_cell b fr fc p) b ds) \<and>
         (\<forall>r c. in_bounds g r c \<longrightarrow>
            cell_at (foldl (\<lambda>b (fr, fc). set_cell b fr fc p) b ds) r c =
              (if (r, c) \<in> set ds then p else cell_at b r c))"
  using assms
proof (induction ds arbitrary: b)
  case Nil
  then show ?case by simp
next
  case (Cons d ds)
  obtain fr fc where d: "d = (fr, fc)" by (cases d)
  from Cons.prems d have inb: "in_bounds g fr fc" by simp
  have sh: "board_shape (gsize g) (set_cell b fr fc p)"
    by (rule board_shape_set_cell [OF Cons.prems(1)])
  from Cons.prems have "\<forall>(r, c)\<in>set ds. in_bounds g r c" by simp
  from Cons.IH [OF sh this] show ?case
    using cell_at_set_cell [OF Cons.prems(1) inb]
    by (auto simp: d)
qed

subsection \<open>The effect of flipping\<close>

text \<open>
  A direction of the flipping loop changes only the board, keeps its shape, and changes
  a cell only to the colour of the mover.
\<close>

lemma flip_discs_dir_effect:
  assumes nz: "dr \<noteq> 0 \<or> dc \<noteq> 0" and sh: "board_shape (gsize g) (board g)"
  shows "flip_discs_dir row col p g (dr, dc) = g\<lparr>board := board (flip_discs_dir row col p g (dr, dc))\<rparr>"
    and "board_shape (gsize g) (board (flip_discs_dir row col p g (dr, dc)))"
    and "in_bounds g r c \<Longrightarrow>
           cell_at (board (flip_discs_dir row col p g (dr, dc))) r c = cell_at (board g) r c \<or>
           cell_at (board (flip_discs_dir row col p g (dr, dc))) r c = p"
proof -
  from flip_discs_scan_char [OF nz, of g "opponent p" "row + dr" "col + dc" "[]"]
  obtain n where n:
    "flip_discs_scan g (opponent p) dr dc (row + dr) (col + dc) [] =
       (row + dr + int n * dr, col + dc + int n * dc,
        map (\<lambda>k. (row + dr + int k * dr, col + dc + int k * dc)) [0..<n])"
    "opp_run g (board g) (opponent p) dr dc (row + dr) (col + dc) n"
    by auto
  let ?ds = "map (\<lambda>k. (row + dr + int k * dr, col + dc + int k * dc)) [0..<n]"
  have inb: "\<forall>(r, c)\<in>set ?ds. in_bounds g r c"
    using n(2) by (auto simp: opp_run_iff)
  note fs = foldl_set_cell [OF sh inb, of p]
  show "flip_discs_dir row col p g (dr, dc) = g\<lparr>board := board (flip_discs_dir row col p g (dr, dc))\<rparr>"
    by (simp add: flip_discs_dir_def n(1))
  show "board_shape (gsize g) (board (flip_discs_dir row col p g (dr, dc)))"
    using fs sh by (simp add: flip_discs_dir_def n(1))
  show "cell_at (board (flip_discs_dir row col p g (dr, dc))) r c = cell_at (board g) r c \<or>
        cell_at (board (flip_discs_dir row col p g (dr, dc))) r c = p" if "in_bounds g r c"
    using fs that by (simp add: flip_discs_dir_def n(1))
qed

text \<open>
  If, when a direction is processed, the cells from the neighbour of \<open>(row, col)\<close> up
  to some cell of the mover's colour all hold a disc of either colour, the neighbour
  holds the mover's colour afterwards.
\<close>

lemma flip_discs_dir_first:
  assumes nz: "dr \<noteq> 0 \<or> dc \<noteq> 0" and sh: "board_shape (gsize g) (board g)"
      and weak: "\<forall>k<m. in_bounds g (row + dr + int k * dr) (col + dc + int k * dc) \<and>
                    (cell_at (board g) (row + dr + int k * dr) (col + dc + int k * dc) = opponent p \<or>
                     cell_at (board g) (row + dr + int k * dr) (col + dc + int k * dc) = p)"
      and endp: "in_bounds g (row + dr + int m * dr) (col + dc + int m * dc)"
                "cell_at (board g) (row + dr + int m * dr) (col + dc + int m * dc) = p"
  shows "cell_at (board (flip_discs_dir row col p g (dr, dc))) (row + dr) (col + dc) = p"
proof -
  from flip_discs_scan_char [OF nz, of g "opponent p" "row + dr" "col + dc" "[]"]
  obtain n where n:
    "flip_discs_scan g (opponent p) dr dc (row + dr) (col + dc) [] =
       (row + dr + int n * dr, col + dc + int n * dc,
        map (\<lambda>k. (row + dr + int k * dr, col + dc + int k * dc)) [0..<n])"
    "opp_run g (board g) (opponent p) dr dc (row + dr) (col + dc) n"
    "\<not> (in_bounds g (row + dr + int n * dr) (col + dc + int n * dc) \<and>
        cell_at (board g) (row + dr + int n * dr) (col + dc + int n * dc) = opponent p)"
    by auto
  let ?ds = "map (\<lambda>k. (row + dr + int k * dr, col + dc + int k * dc)) [0..<n]"
  have le: "n \<le> m"
  proof (rule ccontr)
    assume "\<not> n \<le> m"
    then have "m < n" by simp
    with n(2) have "cell_at (board g) (row + dr + int m * dr) (col + dc + int m * dc) = opponent p"
      by (auto simp: opp_run_iff)
    with endp(2) show False by simp
  qed
  have stop: "in_bounds g (row + dr + int n * dr) (col + dc + int n * dc) \<and>
              cell_at (board g) (row + dr + int n * dr) (col + dc + int n * dc) = p"
  proof (cases "n = m")
    case True
    with endp show ?thesis by simp
  next
    case False
    with le have "n < m" by simp
    with weak n(3) show ?thesis by blast
  qed
  show ?thesis
  proof (cases "n = 0")
    case True
    with stop n(1) show ?thesis
      by (simp add: flip_discs_dir_def)
  next
    case False
    have inb: "\<forall>(r, c)\<in>set ?ds. in_bounds g r c"
      using n(2) by (auto simp: opp_run_iff)
    have first: "(row + dr, col + dc) \<in> set ?ds"
      using False by (auto simp: image_iff intro!: bexI [of _ 0])
    from n(2) False have inb0: "in_bounds g (row + dr) (col + dc)"
      by (auto simp: opp_run_iff dest: spec [of _ 0])
    from foldl_set_cell [OF sh inb, of p] inb0 first
    have "cell_at (foldl (\<lambda>b (fr, fc). set_cell b fr fc p) (board g) ?ds) (row + dr) (col + dc) = p"
      by simp
    with stop False n(1) show ?thesis
      by (simp add: flip_discs_dir_def)
  qed
qed

lemma flip_discs_fold:
  assumes "\<forall>(dr, dc)\<in>set ds. dr \<noteq> 0 \<or> dc \<noteq> 0"
      and "board_shape (gsize g) (board g)"
  shows "foldl (flip_discs_dir row col p) g ds =
           g\<lparr>board := board (foldl (flip_discs_dir row col p) g ds)\<rparr> \<and>
         board_shape (gsize g) (board (foldl (flip_discs_dir row col p) g ds)) \<and>
         (\<forall>r c. in_bounds g r c \<longrightarrow>
            cell_at (board (foldl (flip_discs_dir row col p) g ds)) r c = cell_at (board g) r c \<or>
            cell_at (board (foldl (flip_discs_dir row col p) g ds)) r c = p) \<and>
         (\<forall>dr dc m. (dr, dc) \<in> set ds \<and>
            (\<forall>k<m. in_bounds g (row + dr + int k * dr) (col + dc + int k * dc) \<and>
                (cell_at (board g) (row + dr + int k * dr) (col + dc + int k * dc) = opponent p \<or>
                 cell_at (board g) (row + dr + int k * dr) (col + dc + int k * dc) = p)) \<and>
            in_bounds g (row + dr + int m * dr) (col + dc + int m * dc) \<and>
            cell_at (board g) (row + dr + int m * dr) (col + dc + int m * dc) = p \<and>
            in_bounds g (row + dr) (col + dc)
            \<longrightarrow> cell_at (board (foldl (flip_discs_dir row col p) g ds)) (row + dr) (col + dc) = p)"
  using assms
proof (induction ds arbitrary: g)
  case Nil
  then show ?case by simp
next
  case (Cons d ds)
  obtain dr0 dc0 where d: "d = (dr0, dc0)" by (cases d)
  with Cons.prems have nz: "dr0 \<noteq> 0 \<or> dc0 \<noteq> 0" by simp
  let ?g1 = "flip_discs_dir row col p g (dr0, dc0)"
  let ?g' = "foldl (flip_discs_dir row col p) ?g1 ds"
  note e1 = flip_discs_dir_effect [where row=row and col=col and p=p, OF nz Cons.prems(2)]
  from e1(1) have gs: "gsize ?g1 = gsize g"
    by (metis game.select_convs(1) game.surjective game.update_convs(2))
  have inb1: "in_bounds ?g1 = in_bounds g"
    by (simp add: in_bounds_def gs fun_eq_iff)
  from Cons.prems have nzs: "\<forall>(dr, dc)\<in>set ds. dr \<noteq> 0 \<or> dc \<noteq> 0" by simp
  from e1(2) have sh1: "board_shape (gsize ?g1) (board ?g1)" by (simp add: gs)
  note ih = Cons.IH [OF nzs sh1]
  have step: "cell_at (board ?g1) r c = cell_at (board g) r c \<or> cell_at (board ?g1) r c = p"
    if "in_bounds g r c" for r c
    using e1(3) [OF that] .
  have A: "?g' = g\<lparr>board := board ?g'\<rparr>"
  proof -
    from ih have "?g' = ?g1\<lparr>board := board ?g'\<rparr>" by blast
    also have "\<dots> = g\<lparr>board := board ?g'\<rparr>"
      by (subst e1(1)) simp
    finally show ?thesis .
  qed
  have B: "board_shape (gsize g) (board ?g')"
    using ih gs by simp
  have C: "cell_at (board ?g') r c = cell_at (board g) r c \<or> cell_at (board ?g') r c = p"
    if "in_bounds g r c" for r c
  proof -
    from ih that have "cell_at (board ?g') r c = cell_at (board ?g1) r c \<or> cell_at (board ?g') r c = p"
      by (simp add: inb1)
    with step [OF that] show ?thesis by auto
  qed
  have D: "cell_at (board ?g') (row + dr) (col + dc) = p"
    if mem: "(dr, dc) \<in> set (d # ds)"
      and weak: "\<forall>k<m. in_bounds g (row + dr + int k * dr) (col + dc + int k * dc) \<and>
                (cell_at (board g) (row + dr + int k * dr) (col + dc + int k * dc) = opponent p \<or>
                 cell_at (board g) (row + dr + int k * dr) (col + dc + int k * dc) = p)"
      and endp: "in_bounds g (row + dr + int m * dr) (col + dc + int m * dc)"
                "cell_at (board g) (row + dr + int m * dr) (col + dc + int m * dc) = p"
      and inb0: "in_bounds g (row + dr) (col + dc)"
    for dr dc m
  proof (cases "(dr, dc) = (dr0, dc0)")
    case True
    from flip_discs_dir_first [where row=row and col=col and p=p and m=m, OF nz Cons.prems(2)] weak endp True
    have "cell_at (board ?g1) (row + dr) (col + dc) = p" by simp
    moreover from ih inb0
    have "cell_at (board ?g') (row + dr) (col + dc) = cell_at (board ?g1) (row + dr) (col + dc) \<or>
          cell_at (board ?g') (row + dr) (col + dc) = p"
      by (simp add: inb1)
    ultimately show ?thesis by auto
  next
    case False
    with mem d have mem': "(dr, dc) \<in> set ds" by auto
    have weak1: "\<forall>k<m. in_bounds ?g1 (row + dr + int k * dr) (col + dc + int k * dc) \<and>
                (cell_at (board ?g1) (row + dr + int k * dr) (col + dc + int k * dc) = opponent p \<or>
                 cell_at (board ?g1) (row + dr + int k * dr) (col + dc + int k * dc) = p)"
    proof (intro allI impI)
      fix k assume "k < m"
      with weak have a: "in_bounds g (row + dr + int k * dr) (col + dc + int k * dc)"
        and b: "cell_at (board g) (row + dr + int k * dr) (col + dc + int k * dc) = opponent p \<or>
                cell_at (board g) (row + dr + int k * dr) (col + dc + int k * dc) = p"
        by blast+
      from step [OF a] b a
      show "in_bounds ?g1 (row + dr + int k * dr) (col + dc + int k * dc) \<and>
                (cell_at (board ?g1) (row + dr + int k * dr) (col + dc + int k * dc) = opponent p \<or>
                 cell_at (board ?g1) (row + dr + int k * dr) (col + dc + int k * dc) = p)"
        unfolding inb1 by presburger
    qed
    have endp1: "in_bounds ?g1 (row + dr + int m * dr) (col + dc + int m * dc)"
                "cell_at (board ?g1) (row + dr + int m * dr) (col + dc + int m * dc) = p"
      using endp step [OF endp(1)] by (auto simp: inb1)
    from ih mem' weak1 endp1 inb0 show ?thesis
      by (simp add: inb1) blast
  qed
  show ?case
    unfolding foldl_Cons d
    using A B C D unfolding d by blast
qed

lemma copy_board_id [simp]: "copy_board b = b"
  by (simp add: copy_board_def)

lemma flip_discs_effect:
  assumes sh: "board_shape (gsize g) (board g)"
  shows "flip_discs g row col p = g\<lparr>board := board (flip_discs g row col p)\<rparr>"
    and "board_shape (gsize g) (board (flip_discs g row col p))"
    and "in_bounds g r c \<Longrightarrow>
           cell_at (board (flip_discs g row col p)) r c = cell_at (board g) r c \<or>
           cell_at (board (flip_discs g row col p)) r c = p"
    and "(dr, dc) \<in> set DIRECTIONS \<Longrightarrow>
         \<forall>k<m. in_bounds g (row + dr + int k * dr) (col + dc + int k * dc) \<and>
                (cell_at (board g) (row + dr + int k * dr) (col + dc + int k * dc) = opponent p \<or>
                 cell_at (board g) (row + dr + int k * dr) (col + dc + int k * dc) = p) \<Longrightarrow>
         in_bounds g (row + dr + int m * dr) (col + dc + int m * dc) \<Longrightarrow>
         cell_at (board g) (row + dr + int m * dr) (col + dc + int m * dc) = p \<Longrightarrow>
         in_bounds g (row + dr) (col + dc) \<Longrightarrow>
         cell_at (board (flip_discs g row col p)) (row + dr) (col + dc) = p"
proof -
  have nz: "\<forall>(dr, dc)\<in>set DIRECTIONS. dr \<noteq> 0 \<or> dc \<noteq> 0"
    using DIRECTIONS_nonzero by auto
  note f = flip_discs_fold [where row=row and col=col and p=p, OF nz sh, folded flip_discs_def]
  note f1 = f [THEN conjunct1]
  note f2 = f [THEN conjunct2, THEN conjunct1]
  note f3 = f [THEN conjunct2, THEN conjunct2, THEN conjunct1, rule_format]
  note f4 = f [THEN conjunct2, THEN conjunct2, THEN conjunct2, rule_format]
  from f1 show "flip_discs g row col p = g\<lparr>board := board (flip_discs g row col p)\<rparr>" .
  from f2 show "board_shape (gsize g) (board (flip_discs g row col p))" .
  show "cell_at (board (flip_discs g row col p)) r c = cell_at (board g) r c \<or>
           cell_at (board (flip_discs g row col p)) r c = p" if "in_bounds g r c"
    using f3 [OF that] .
  show "cell_at (board (flip_discs g row col p)) (row + dr) (col + dc) = p"
    if a: "(dr, dc) \<in> set DIRECTIONS"
      "\<forall>k<m. in_bounds g (row + dr + int k * dr) (col + dc + int k * dc) \<and>
                (cell_at (board g) (row + dr + int k * dr) (col + dc + int k * dc) = opponent p \<or>
                 cell_at (board g) (row + dr + int k * dr) (col + dc + int k * dc) = p)"
      "in_bounds g (row + dr + int m * dr) (col + dc + int m * dc)"
      "cell_at (board g) (row + dr + int m * dr) (col + dc + int m * dc) = p"
      "in_bounds g (row + dr) (col + dc)"
    by (rule f4 [of dr dc m]) (intro conjI a)
qed

text \<open>What a successful \<open>place_piece\<close> does to the game.\<close>

lemma place_piece_success:
  assumes sh: "board_shape (gsize g) (board g)"
      and inb: "in_bounds g row col" and cf: "can_flip g row col p"
  obtains b' where
    "place_piece g row col p =
       (True, g\<lparr>board := b', last_placed_move := Some (row, col),
                 move_history := move_history g @ [(b', current_player g)],
                 move_log := move_log g @ [(p, (row, col))]\<rparr>)"
    "board_shape (gsize g) b'"
    "\<And>r c. in_bounds g r c \<Longrightarrow> cell_at b' r c = cell_at (board g) r c \<or> cell_at b' r c = p"
    "cell_at b' row col = p"
    "\<And>dr dc n. (dr, dc) \<in> set DIRECTIONS \<Longrightarrow> bracketed_run g row col p (dr, dc) n \<Longrightarrow>
        cell_at b' (row + dr) (col + dc) = p"
proof -
  let ?g1 = "g\<lparr>board := set_cell (board g) row col p\<rparr>"
  let ?g2 = "flip_discs ?g1 row col p"
  have sh1: "board_shape (gsize ?g1) (board ?g1)"
    using board_shape_set_cell [OF sh] by simp
  have inb1: "in_bounds ?g1 = in_bounds g"
    by (simp add: in_bounds_def fun_eq_iff)
  note e = flip_discs_effect [where row=row and col=col and p=p, OF sh1]
  have c1: "cell_at (board ?g1) r c = (if r = row \<and> c = col then p else cell_at (board g) r c)"
    if "in_bounds g r c" for r c
    using cell_at_set_cell [OF sh inb that] by simp
  define b' where "b' = board ?g2"
  have g2: "?g2 = g\<lparr>board := b'\<rparr>"
    unfolding b'_def by (subst e(1)) simp
  have pp: "place_piece g row col p =
       (True, g\<lparr>board := board ?g2, last_placed_move := Some (row, col),
                 move_history := move_history g @ [(board ?g2, current_player g)],
                 move_log := move_log g @ [(p, (row, col))]\<rparr>)"
    using inb cf by (simp add: place_piece_def Let_def g2)
  have A: "board_shape (gsize g) (board ?g2)"
    using e(2) by simp
  have B: "cell_at (board ?g2) r c = cell_at (board g) r c \<or> cell_at (board ?g2) r c = p"
    if "in_bounds g r c" for r c
    using e(3) [of r c] c1 [OF that] that by (auto simp: inb1)
  have C: "cell_at (board ?g2) row col = p"
    using e(3) [of row col] c1 [OF inb] inb by (auto simp: inb1)
  have D: "cell_at (board ?g2) (row + dr) (col + dc) = p"
    if mem: "(dr, dc) \<in> set DIRECTIONS" and run: "bracketed_run g row col p (dr, dc) n" for dr dc n
  proof -
    from run have n: "n \<ge> 1"
      "opp_run g (board g) (opponent p) dr dc (row + dr) (col + dc) n"
      "in_bounds g (row + dr + int n * dr) (col + dc + int n * dc)"
      "cell_at (board g) (row + dr + int n * dr) (col + dc + int n * dc) = p"
      by (simp_all add: bracketed_run_iff)
    have weak: "\<forall>k<n. in_bounds ?g1 (row + dr + int k * dr) (col + dc + int k * dc) \<and>
                (cell_at (board ?g1) (row + dr + int k * dr) (col + dc + int k * dc) = opponent p \<or>
                 cell_at (board ?g1) (row + dr + int k * dr) (col + dc + int k * dc) = p)"
    proof (intro allI impI)
      fix k assume "k < n"
      with n(2) have a: "in_bounds g (row + dr + int k * dr) (col + dc + int k * dc)"
        and b: "cell_at (board g) (row + dr + int k * dr) (col + dc + int k * dc) = opponent p"
        by (auto simp: opp_run_iff)
      from c1 [OF a] a b
      show "in_bounds ?g1 (row + dr + int k * dr) (col + dc + int k * dc) \<and>
                (cell_at (board ?g1) (row + dr + int k * dr) (col + dc + int k * dc) = opponent p \<or>
                 cell_at (board ?g1) (row + dr + int k * dr) (col + dc + int k * dc) = p)"
        unfolding inb1 by presburger
    qed
    have endp: "in_bounds ?g1 (row + dr + int n * dr) (col + dc + int n * dc)"
      "cell_at (board ?g1) (row + dr + int n * dr) (col + dc + int n * dc) = p"
      using n(3,4) c1 [OF n(3)] unfolding inb1 by presburger+
    from n(1,2) have "in_bounds g (row + dr) (col + dc)"
      by (auto simp: opp_run_iff dest: spec [of _ 0])
    then have inb0: "in_bounds ?g1 (row + dr) (col + dc)"
      by (simp add: inb1)
    from e(4) [OF mem weak endp inb0] show ?thesis .
  qed
  show thesis
    by (rule that [of "board ?g2"], rule pp, rule A, erule B, rule C, erule D, assumption)
qed

subsection \<open>Legal moves\<close>

lemma DIRECTIONS_unit:
  "(dr, dc) \<in> set DIRECTIONS \<Longrightarrow> (dr = -1 \<or> dr = 0 \<or> dr = 1) \<and> (dc = -1 \<or> dc = 0 \<or> dc = 1)"
  by (auto simp: DIRECTIONS_def)

lemma bracketed_run_bound:
  assumes "in_bounds g row col" "(dr, dc) \<in> set DIRECTIONS" "bracketed_run g row col p (dr, dc) n"
  shows "1 \<le> n \<and> n < gsize g"
proof -
  from assms(3) have n: "n \<ge> 1" "in_bounds g (row + dr + int n * dr) (col + dc + int n * dc)"
    by (simp_all add: bracketed_run_iff)
  from DIRECTIONS_unit [OF assms(2)] DIRECTIONS_nonzero [OF assms(2)]
  consider "dr = 1" | "dr = -1" | "dc = 1" | "dc = -1" by auto
  then have "n < gsize g"
  proof cases
    case 1
    with n(2) assms(1) show ?thesis by (simp add: in_bounds_def)
  next
    case 2
    with n(2) assms(1) show ?thesis by (simp add: in_bounds_def)
  next
    case 3
    with n(2) assms(1) show ?thesis by (simp add: in_bounds_def)
  next
    case 4
    with n(2) assms(1) show ?thesis by (simp add: in_bounds_def)
  qed
  with n(1) show ?thesis by simp
qed

lemma legal_move_iff:
  "legal_move g row col p = (in_bounds g row col \<and> can_flip g row col p)"
proof -
  have "list_ex (bracketed_run g row col p d) [1..<gsize g] = (\<exists>n. bracketed_run g row col p d n)"
    if "in_bounds g row col" "d \<in> set DIRECTIONS" for d
  proof -
    obtain dr dc where d: "d = (dr, dc)" by (cases d)
    show ?thesis
      using bracketed_run_bound [OF that(1), of dr dc p] that(2)
      unfolding d list_ex_iff by auto
  qed
  then show ?thesis
    unfolding legal_move_def can_flip_iff list_ex_iff by blast
qed

lemma legal_move_valid_moves:
  "legal_move g row col p = ((row, col) \<in> set (valid_moves g p))"
  by (auto simp: legal_move_iff valid_moves_iff can_flip_iff)

subsection \<open>Counting discs\<close>

lemma length_filter_mono:
  "(\<And>x. x \<in> set xs \<Longrightarrow> P x \<Longrightarrow> Q x) \<Longrightarrow> length (filter P xs) \<le> length (filter Q xs)"
  by (induction xs) auto

lemma length_filter_strict:
  assumes "\<And>x. x \<in> set xs \<Longrightarrow> P x \<Longrightarrow> Q x" "y \<in> set xs" "\<not> P y" "Q y"
  shows "length (filter P xs) < length (filter Q xs)"
  using assms
proof (induction xs)
  case Nil
  then show ?case by simp
next
  case (Cons x xs)
  have mono: "length (filter P xs) \<le> length (filter Q xs)"
    using Cons.prems(1) by (intro length_filter_mono) auto
  show ?case
  proof (cases "y = x")
    case True
    with Cons.prems mono show ?thesis by auto
  next
    case False
    with Cons.prems have "y \<in> set xs" by simp
    with Cons.IH Cons.prems have "length (filter P xs) < length (filter Q xs)" by auto
    with Cons.prems(1) [of x] show ?thesis by auto
  qed
qed

lemma length_filter_disjoint:
  "(\<And>x. \<not> (P x \<and> Q x)) \<Longrightarrow>
     length (filter P xs) + length (filter Q xs) = length (filter (\<lambda>x. P x \<or> Q x) xs)"
  by (induction xs) auto

lemma total_count:
  "black_count g + white_count g =
     length (filter (\<lambda>(r, c). cell_at (board g) r c = BLACK \<or> cell_at (board g) r c = WHITE)
                    (all_cells (gsize g)))"
proof -
  have "length (filter (\<lambda>(r, c). cell_at (board g) r c = BLACK) (all_cells (gsize g))) +
        length (filter (\<lambda>(r, c). cell_at (board g) r c = WHITE) (all_cells (gsize g))) =
        length (filter (\<lambda>x. (case x of (r, c) \<Rightarrow> cell_at (board g) r c = BLACK) \<or>
                             (case x of (r, c) \<Rightarrow> cell_at (board g) r c = WHITE))
                       (all_cells (gsize g)))"
    by (rule length_filter_disjoint) auto
  also have "(\<lambda>x. (case x of (r, c) \<Rightarrow> cell_at (board g) r c = BLACK) \<or>
                   (case x of (r, c) \<Rightarrow> cell_at (board g) r c = WHITE)) =
             (\<lambda>(r, c). cell_at (board g) r c = BLACK \<or> cell_at (board g) r c = WHITE)"
    by auto
  finally show ?thesis
    by (simp add: black_count_def white_count_def count_cells_def)
qed

subsection \<open>The static evaluation\<close>

lemma opponent_opponent: "p = BLACK \<or> p = WHITE \<Longrightarrow> opponent (opponent p) = p"
  by (auto simp: opponent_def)

lemma evaluate_step_swap:
  assumes "p = BLACK \<or> p = WHITE"
  shows "evaluate_step g b (opponent p) (x, y) m =
           prod.swap (evaluate_step g b p (y, x) m)"
  using opponent_opponent [OF assms]
  by (cases m) (auto simp: evaluate_step_def Let_def)

lemma evaluate_fold_swap:
  assumes "p = BLACK \<or> p = WHITE"
  shows "foldl (evaluate_step g b (opponent p)) (x, y) ms =
           prod.swap (foldl (evaluate_step g b p) (y, x) ms)"
proof (induction ms arbitrary: x y)
  case Nil
  then show ?case by simp
next
  case (Cons m ms)
  obtain x' y' where e: "evaluate_step g b p (y, x) m = (y', x')"
    by (cases "evaluate_step g b p (y, x) m")
  with evaluate_step_swap [OF assms, of g b x y m]
  have "evaluate_step g b (opponent p) (x, y) m = (x', y')" by simp
  with e Cons.IH [of x' y'] show ?case by simp
qed

subsection \<open>The two legality scans agree\<close>

lemma is_valid_scan_iff:
  assumes "dr \<noteq> 0 \<or> dc \<noteq> 0"
  shows "is_valid_scan g b p dr dc r c h =
           (\<exists>n. opp_run g b (opponent p) dr dc r c n \<and>
                in_bounds g (r + int n * dr) (c + int n * dc) \<and>
                cell_at b (r + int n * dr) (c + int n * dc) = p \<and> (h \<or> n > 0))"
  using assms
proof (induction g b p dr dc r c h rule: is_valid_scan.induct)
  case (1 g b p dr dc r c h)
  let ?R = "\<lambda>r c h. \<exists>n. opp_run g b (opponent p) dr dc r c n \<and>
                in_bounds g (r + int n * dr) (c + int n * dc) \<and>
                cell_at b (r + int n * dr) (c + int n * dc) = p \<and> (h \<or> n > 0)"
  have unfold: "is_valid_scan g b p dr dc r c h =
      (if in_bounds g r c
       then (if cell_at b r c = opponent p then is_valid_scan g b p dr dc (r + dr) (c + dc) True
             else if cell_at b r c = p \<and> h then True else False)
       else False)"
    using "1.prems" by (subst is_valid_scan.simps) (simp add: in_bounds_def)
  have ih: "is_valid_scan g b p dr dc (r + dr) (c + dc) True = ?R (r + dr) (c + dc) True"
    if "in_bounds g r c" "cell_at b r c = opponent p"
    using 1 that by (simp add: in_bounds_def)
  have zero: False if "?R r c h" "\<not> in_bounds g r c"
  proof -
    from that(1) obtain n where n: "opp_run g b (opponent p) dr dc r c n"
      "in_bounds g (r + int n * dr) (c + int n * dc)" by blast
    show False
    proof (cases n)
      case 0
      with n(2) that(2) show False by simp
    next
      case (Suc k)
      with n(1) that(2) show False by (simp add: opp_run_Suc)
    qed
  qed
  show ?case
  proof (cases "in_bounds g r c")
    case False
    with zero have "\<not> ?R r c h" by blast
    with False unfold show ?thesis
      by simp
  next
    case True
    show ?thesis
    proof (cases "cell_at b r c = opponent p")
      case opp: True
      have "?R r c h = ?R (r + dr) (c + dc) True"
      proof
        assume "?R r c h"
        then obtain n where n: "opp_run g b (opponent p) dr dc r c n"
          "in_bounds g (r + int n * dr) (c + int n * dc)"
          "cell_at b (r + int n * dr) (c + int n * dc) = p" by blast
        from n(3) opp have "n \<noteq> 0" by (cases n) auto
        then obtain k where k: "n = Suc k" by (cases n) auto
        have e: "r + int (Suc k) * dr = r + dr + int k * dr" "c + int (Suc k) * dc = c + dc + int k * dc"
          by (simp_all add: algebra_simps)
        from n show "?R (r + dr) (c + dc) True"
          unfolding k e opp_run_Suc by blast
      next
        assume "?R (r + dr) (c + dc) True"
        then obtain k where k: "opp_run g b (opponent p) dr dc (r + dr) (c + dc) k"
          "in_bounds g (r + dr + int k * dr) (c + dc + int k * dc)"
          "cell_at b (r + dr + int k * dr) (c + dc + int k * dc) = p" by blast
        have e: "r + int (Suc k) * dr = r + dr + int k * dr" "c + int (Suc k) * dc = c + dc + int k * dc"
          by (simp_all add: algebra_simps)
        have "opp_run g b (opponent p) dr dc r c (Suc k)"
          using True opp k(1) by (simp add: opp_run_Suc)
        with k(2,3) show "?R r c h"
          by (intro exI [of _ "Suc k"]) (simp only: e, simp)
      qed
      with ih [OF True opp] True opp unfold show ?thesis
        by simp
    next
      case nopp: False
      have "?R r c h = (cell_at b r c = p \<and> h)"
      proof
        assume "?R r c h"
        then obtain n where n: "opp_run g b (opponent p) dr dc r c n"
          "cell_at b (r + int n * dr) (c + int n * dc) = p" "h \<or> n > 0" by blast
        from n(1) nopp have "n = 0" by (cases n) (auto simp: opp_run_Suc)
        with n show "cell_at b r c = p \<and> h" by simp
      next
        assume "cell_at b r c = p \<and> h"
        with True show "?R r c h"
          by (intro exI [of _ 0]) simp
      qed
      with True nopp unfold show ?thesis
        by simp
    qed
  qed
qed

lemma in_bounds_board_update [simp]: "in_bounds (g\<lparr>board := b\<rparr>) = in_bounds g"
  by (simp add: in_bounds_def fun_eq_iff)

lemma opp_run_board_update [simp]: "opp_run (g\<lparr>board := b'\<rparr>) b = opp_run g b"
  by (simp add: opp_run_def fun_eq_iff)

lemma is_valid_dir_iff:
  assumes "dr \<noteq> 0 \<or> dc \<noteq> 0"
  shows "is_valid_scan g b p dr dc (row + dr) (col + dc) False =
           (\<exists>n. bracketed_run (g\<lparr>board := b\<rparr>) row col p (dr, dc) n)"
proof -
  have "(0 < n) = (1 \<le> n)" for n :: nat by auto
  then show ?thesis
    unfolding is_valid_scan_iff [OF assms] bracketed_run_iff
    by (simp) blast
qed

lemma is_valid_dirs_iff:
  assumes "\<forall>(dr, dc)\<in>set ds. dr \<noteq> 0 \<or> dc \<noteq> 0"
  shows "is_valid_dirs g b row col p ds =
           (\<exists>d\<in>set ds. \<exists>n. bracketed_run (g\<lparr>board := b\<rparr>) row col p d n)"
  using assms
proof (induction ds)
  case Nil
  then show ?case by simp
next
  case (Cons d ds)
  obtain dr dc where d: "d = (dr, dc)" by (cases d)
  with Cons.prems have nz: "dr \<noteq> 0 \<or> dc \<noteq> 0" by simp
  from Cons have ih: "is_valid_dirs g b row col p ds =
      (\<exists>d\<in>set ds. \<exists>n. bracketed_run (g\<lparr>board := b\<rparr>) row col p d n)"
    by simp
  show ?case
    by (simp add: d is_valid_dir_iff [OF nz] ih) blast
qed

lemma is_valid_move_in_state_eq:
  "is_valid_move_in_state g b row col p = can_flip (g\<lparr>board := b\<rparr>) row col p"
proof -
  have "\<forall>(dr, dc)\<in>set DIRECTIONS. dr \<noteq> 0 \<or> dc \<noteq> 0"
    using DIRECTIONS_nonzero by auto
  from is_valid_dirs_iff [OF this] show ?thesis
    by (simp add: is_valid_move_in_state_def can_flip_iff)
qed

lemma get_valid_moves_in_state_eq:
  "get_valid_moves_in_state g b p = valid_moves (g\<lparr>board := b\<rparr>) p"
proof -
  have "(\<lambda>(r, c). is_valid_move_in_state g b r c p) =
        (\<lambda>(r, c). cell_at b r c = EMPTY \<and> can_flip (g\<lparr>board := b\<rparr>) r c p)"
    by (auto simp: fun_eq_iff is_valid_move_in_state_eq can_flip_def)
  then show ?thesis
    by (simp add: get_valid_moves_in_state_def valid_moves_def)
qed

lemma has_valid_moves_in_state_eq:
  "has_valid_moves_in_state g b p = (get_valid_moves_in_state g b p \<noteq> [])"
  by (auto simp: has_valid_moves_in_state_def get_valid_moves_in_state_def list_ex_iff
      filter_empty_conv)

section \<open>The claims\<close>

text \<open>
  Claim C9. On the freshly constructed size-8 board (the four central cells occupied by
  the standard initial placement, every other cell Empty, Black to move),
  \<open>valid_moves\<close> for Black returns exactly the coordinates
  \<open>(2,3)\<close>, \<open>(3,2)\<close>, \<open>(4,5)\<close>, \<open>(5,4)\<close>, whatever the other arguments of the
  constructor are.
\<close>

theorem initial_valid_moves_black:
  "map_option (\<lambda>g. (current_player g, board g, valid_moves g BLACK))
     (OthelloGame 8 opp_type ai_difficulty color dyn) =
   Some (BLACK,
         [[0, 0, 0, 0, 0, 0, 0, 0],
          [0, 0, 0, 0, 0, 0, 0, 0],
          [0, 0, 0, 0, 0, 0, 0, 0],
          [0, 0, 0, 2, 1, 0, 0, 0],
          [0, 0, 0, 1, 2, 0, 0, 0],
          [0, 0, 0, 0, 0, 0, 0, 0],
          [0, 0, 0, 0, 0, 0, 0, 0],
          [0, 0, 0, 0, 0, 0, 0, 0]],
         [(2, 3), (3, 2), (4, 5), (5, 4)])"
  by code_simp

text \<open>
  Claim C1. For every well-formed board and every player, every coordinate \<open>(r, c)\<close>
  returned by \<open>valid_moves\<close> is on the board and Empty, some direction holds a
  contiguous run of opponent discs starting next to \<open>(r, c)\<close> and followed by a disc of
  the mover, and \<open>place_piece\<close> at \<open>(r, c)\<close> succeeds and turns at least one disc of
  the opponent into a disc of the mover.
\<close>

theorem valid_moves_sound:
  assumes "wf_board (gsize g) (board g)"
      and "(r, c) \<in> set (valid_moves g player)"
  shows "in_bounds g r c \<and> cell_at (board g) r c = EMPTY \<and>
         (\<exists>d\<in>set DIRECTIONS. \<exists>n. bracketed_run g r c player d n) \<and>
         (\<exists>g' fr fc. place_piece g r c player = (True, g') \<and>
            in_bounds g fr fc \<and>
            cell_at (board g) fr fc = opponent player \<and>
            cell_at (board g') fr fc = player)"
proof -
  from assms(1) have sh: "board_shape (gsize g) (board g)"
    by (simp add: wf_board_def)
  from assms(2) have inb: "in_bounds g r c" and em: "cell_at (board g) r c = EMPTY"
    and cf: "can_flip g r c player"
    by (simp_all add: valid_moves_iff)
  from cf obtain dr dc n where d: "(dr, dc) \<in> set DIRECTIONS"
    and run: "bracketed_run g r c player (dr, dc) n"
    by (auto simp: can_flip_iff)
  from run have first: "in_bounds g (r + dr) (c + dc)"
    "cell_at (board g) (r + dr) (c + dc) = opponent player"
    by (auto simp: bracketed_run_iff opp_run_iff dest: spec [of _ 0])
  from place_piece_success [OF sh inb cf] obtain b' where b':
    "place_piece g r c player =
       (True, g\<lparr>board := b', last_placed_move := Some (r, c),
                 move_history := move_history g @ [(b', current_player g)],
                 move_log := move_log g @ [(player, (r, c))]\<rparr>)"
    "\<And>dr dc n. (dr, dc) \<in> set DIRECTIONS \<Longrightarrow> bracketed_run g r c player (dr, dc) n \<Longrightarrow>
        cell_at b' (r + dr) (c + dc) = player"
    by metis
  from b'(2) [OF d run] have "cell_at b' (r + dr) (c + dc) = player" .
  with b'(1) first have
    "\<exists>g' fr fc. place_piece g r c player = (True, g') \<and> in_bounds g fr fc \<and>
        cell_at (board g) fr fc = opponent player \<and> cell_at (board g') fr fc = player"
    by (intro exI [of _ "g\<lparr>board := b', last_placed_move := Some (r, c),
                 move_history := move_history g @ [(b', current_player g)],
                 move_log := move_log g @ [(player, (r, c))]\<rparr>"]
          exI [of _ "r + dr"] exI [of _ "c + dc"]) simp
  with inb em d run show ?thesis by blast
qed

theorem valid_moves_sound_witness:
  "wf_board (gsize (default_game 8)) (board (default_game 8)) \<and>
   (2, 3) \<in> set (valid_moves (default_game 8) BLACK) \<and>
   in_bounds (default_game 8) 2 3 \<and> cell_at (board (default_game 8)) 2 3 = EMPTY \<and>
   (\<exists>d\<in>set DIRECTIONS. \<exists>n. bracketed_run (default_game 8) 2 3 BLACK d n) \<and>
   (\<exists>g' fr fc. place_piece (default_game 8) 2 3 BLACK = (True, g') \<and>
      in_bounds (default_game 8) fr fc \<and>
      cell_at (board (default_game 8)) fr fc = opponent BLACK \<and>
      cell_at (board g') fr fc = BLACK)"
proof -
  have h1: "wf_board (gsize (default_game 8)) (board (default_game 8))"
    by code_simp
  have h2: "(2, 3) \<in> set (valid_moves (default_game 8) BLACK)"
    by code_simp
  from valid_moves_sound [OF h1 h2] h1 h2 show ?thesis by blast
qed

text \<open>
  Claim C5. A request whose coordinate is out of bounds, whose target cell is occupied,
  or whose placement brackets no run of opponent discs in any direction (that is, a
  request that is not \<open>legal_move\<close>) makes \<open>place_piece\<close> return false and leaves the
  whole game state unchanged: board, move history, move log, last placed move and current
  player.
\<close>

theorem place_piece_rejects:
  assumes "\<not> legal_move g row col player"
  shows "place_piece g row col player = (False, g)"
  using assms by (auto simp: legal_move_iff place_piece_def)

theorem place_piece_rejects_witness:
  "\<not> legal_move (default_game 8) (-1) 0 BLACK \<and>
   place_piece (default_game 8) (-1) 0 BLACK = (False, default_game 8) \<and>
   \<not> legal_move (default_game 8) 3 3 BLACK \<and>
   place_piece (default_game 8) 3 3 BLACK = (False, default_game 8) \<and>
   \<not> legal_move (default_game 8) 0 0 WHITE \<and>
   place_piece (default_game 8) 0 0 WHITE = (False, default_game 8)"
proof -
  have h1: "\<not> legal_move (default_game 8) (-1) 0 BLACK" by code_simp
  have h2: "\<not> legal_move (default_game 8) 3 3 BLACK" by code_simp
  have h3: "\<not> legal_move (default_game 8) 0 0 WHITE" by code_simp
  from place_piece_rejects [OF h1] place_piece_rejects [OF h2] place_piece_rejects [OF h3]
    h1 h2 h3
  show ?thesis by blast
qed

text \<open>
  Claim C6. For every well-formed game state and every legal move of a player (Black or
  White), \<open>place_piece\<close> succeeds, strictly increases the number of discs of that
  player, and does not decrease the total number of discs on the board.
\<close>

theorem place_piece_counts:
  assumes wf: "wf_board (gsize g) (board g)"
      and pl: "player = BLACK \<or> player = WHITE"
      and mv: "(row, col) \<in> set (valid_moves g player)"
  shows "\<exists>g'. place_piece g row col player = (True, g') \<and>
              count_cells g player < count_cells g' player \<and>
              black_count g + white_count g \<le> black_count g' + white_count g'"
proof -
  from wf have sh: "board_shape (gsize g) (board g)"
    by (simp add: wf_board_def)
  from mv have inb: "in_bounds g row col" and em: "cell_at (board g) row col = EMPTY"
    and cf: "can_flip g row col player"
    by (simp_all add: valid_moves_iff)
  from place_piece_success [OF sh inb cf] obtain b' where b':
    "place_piece g row col player =
       (True, g\<lparr>board := b', last_placed_move := Some (row, col),
                 move_history := move_history g @ [(b', current_player g)],
                 move_log := move_log g @ [(player, (row, col))]\<rparr>)"
    "\<And>r c. in_bounds g r c \<Longrightarrow> cell_at b' r c = cell_at (board g) r c \<or> cell_at b' r c = player"
    "cell_at b' row col = player"
    by metis
  let ?g' = "g\<lparr>board := b', last_placed_move := Some (row, col),
                 move_history := move_history g @ [(b', current_player g)],
                 move_log := move_log g @ [(player, (row, col))]\<rparr>"
  have mem: "(row, col) \<in> set (all_cells (gsize g))"
    using inb by (simp add: in_all_cells)
  have "length (filter (\<lambda>(r, c). cell_at (board g) r c = player) (all_cells (gsize g)))
        < length (filter (\<lambda>(r, c). cell_at b' r c = player) (all_cells (gsize g)))"
  proof (rule length_filter_strict [OF _ mem])
    fix x assume a: "x \<in> set (all_cells (gsize g))"
      and b: "case x of (r, c) \<Rightarrow> cell_at (board g) r c = player"
    obtain r c where "x = (r, c)" by (cases x)
    with a b have x: "x = (r, c)" "in_bounds g r c" "cell_at (board g) r c = player"
      by (simp_all add: in_all_cells)
    from b'(2) [OF x(2)] x(3) have "cell_at b' r c = player" by presburger
    with x(1) show "case x of (r, c) \<Rightarrow> cell_at b' r c = player" by simp
  next
    show "\<not> (case (row, col) of (r, c) \<Rightarrow> cell_at (board g) r c = player)"
      using em pl by auto
  next
    show "case (row, col) of (r, c) \<Rightarrow> cell_at b' r c = player"
      using b'(3) by simp
  qed
  then have strict: "count_cells g player < count_cells ?g' player"
    by (simp add: count_cells_def)
  have "length (filter (\<lambda>(r, c). cell_at (board g) r c = BLACK \<or> cell_at (board g) r c = WHITE)
                       (all_cells (gsize g)))
        \<le> length (filter (\<lambda>(r, c). cell_at b' r c = BLACK \<or> cell_at b' r c = WHITE)
                       (all_cells (gsize g)))"
  proof (rule length_filter_mono)
    fix x assume a: "x \<in> set (all_cells (gsize g))"
      and b: "case x of (r, c) \<Rightarrow> cell_at (board g) r c = BLACK \<or> cell_at (board g) r c = WHITE"
    obtain r c where "x = (r, c)" by (cases x)
    with a b have x: "x = (r, c)" "in_bounds g r c"
      "cell_at (board g) r c = BLACK \<or> cell_at (board g) r c = WHITE"
      by (simp_all add: in_all_cells)
    from b'(2) [OF x(2)] x(3) pl have "cell_at b' r c = BLACK \<or> cell_at b' r c = WHITE"
      by presburger
    with x(1) show "case x of (r, c) \<Rightarrow> cell_at b' r c = BLACK \<or> cell_at b' r c = WHITE"
      by simp
  qed
  then have total: "black_count g + white_count g \<le> black_count ?g' + white_count ?g'"
    by (simp add: total_count)
  from b'(1) strict total show ?thesis by blast
qed

theorem place_piece_counts_witness:
  "wf_board (gsize (default_game 8)) (board (default_game 8)) \<and>
   (BLACK = BLACK \<or> BLACK = WHITE) \<and>
   (2, 3) \<in> set (valid_moves (default_game 8) BLACK) \<and>
   (\<exists>g'. place_piece (default_game 8) 2 3 BLACK = (True, g') \<and>
         count_cells (default_game 8) BLACK < count_cells g' BLACK \<and>
         black_count (default_game 8) + white_count (default_game 8)
           \<le> black_count g' + white_count g')"
proof -
  have h1: "wf_board (gsize (default_game 8)) (board (default_game 8))"
    by code_simp
  have h2: "BLACK = BLACK \<or> BLACK = WHITE"
    by simp
  have h3: "(2, 3) \<in> set (valid_moves (default_game 8) BLACK)"
    by code_simp
  from place_piece_counts [OF h1 h2 h3] h1 h3 show ?thesis by blast
qed

text \<open>
  Claim C2. On well-formed boards the terminal test is true exactly when neither side
  has a legal move: \<open>is_game_over\<close> on the board of the game, in terms of
  \<open>valid_moves\<close>, and \<open>is_terminal_state\<close> on a snapshot, in terms of
  \<open>get_valid_moves_in_state\<close>, which returns the same list as \<open>valid_moves\<close> on a game
  holding that snapshot. In particular a board on which exactly one side has no legal
  move is not terminal.
\<close>

theorem terminal_iff_no_legal_moves:
  assumes "wf_board (gsize g) (board g)" and "wf_board (gsize g) b"
  shows "(is_game_over g = (valid_moves g BLACK = [] \<and> valid_moves g WHITE = [])) \<and>
         (is_terminal_state g b =
            (get_valid_moves_in_state g b BLACK = [] \<and> get_valid_moves_in_state g b WHITE = [])) \<and>
         get_valid_moves_in_state g b player = valid_moves (g\<lparr>board := b\<rparr>) player"
  by (simp add: is_game_over_def is_terminal_state_def has_valid_moves_in_state_eq
      get_valid_moves_in_state_eq)

theorem terminal_iff_no_legal_moves_witness:
  "wf_board (gsize (default_game 6)) (board (default_game 6)) \<and>
   wf_board (gsize (default_game 6))
     [[1, 2, 0, 0, 0, 0], [0, 0, 0, 0, 0, 0], [0, 0, 0, 0, 0, 0],
      [0, 0, 0, 0, 0, 0], [0, 0, 0, 0, 0, 0], [0, 0, 0, 0, 0, 0]] \<and>
   (is_game_over (default_game 6) =
      (valid_moves (default_game 6) BLACK = [] \<and> valid_moves (default_game 6) WHITE = [])) \<and>
   get_valid_moves_in_state (default_game 6)
     [[1, 2, 0, 0, 0, 0], [0, 0, 0, 0, 0, 0], [0, 0, 0, 0, 0, 0],
      [0, 0, 0, 0, 0, 0], [0, 0, 0, 0, 0, 0], [0, 0, 0, 0, 0, 0]] BLACK = [(0, 2)] \<and>
   get_valid_moves_in_state (default_game 6)
     [[1, 2, 0, 0, 0, 0], [0, 0, 0, 0, 0, 0], [0, 0, 0, 0, 0, 0],
      [0, 0, 0, 0, 0, 0], [0, 0, 0, 0, 0, 0], [0, 0, 0, 0, 0, 0]] WHITE = [] \<and>
   \<not> is_terminal_state (default_game 6)
     [[1, 2, 0, 0, 0, 0], [0, 0, 0, 0, 0, 0], [0, 0, 0, 0, 0, 0],
      [0, 0, 0, 0, 0, 0], [0, 0, 0, 0, 0, 0], [0, 0, 0, 0, 0, 0]]"
proof -
  let ?b = "[[1, 2, 0, 0, 0, 0], [0, 0, 0, 0, 0, 0], [0, 0, 0, 0, 0, 0],
      [0, 0, 0, 0, 0, 0], [0, 0, 0, 0, 0, 0], [0, 0, 0, 0, 0, 0 :: int]]"
  have h1: "wf_board (gsize (default_game 6)) (board (default_game 6))"
    by code_simp
  have h2: "wf_board (gsize (default_game 6)) ?b"
    by code_simp
  have m1: "get_valid_moves_in_state (default_game 6) ?b BLACK = [(0, 2)]"
    by code_simp
  have m2: "get_valid_moves_in_state (default_game 6) ?b WHITE = []"
    by code_simp
  from terminal_iff_no_legal_moves [OF h1 h2] h1 h2 m1 m2 show ?thesis
    by simp
qed

text \<open>
  Claim C8. For every well-formed board and every player in \<open>{Black, White}\<close> the
  static evaluation is antisymmetric in the player:
  \<open>evaluate_board(board, player) = - evaluate_board(board, opponent(player))\<close>.
\<close>

theorem evaluate_board_antisymmetric:
  assumes "wf_board (gsize g) b"
      and "board_shape (gsize g) (position_weights g)"
      and "player = BLACK \<or> player = WHITE"
  shows "evaluate_board g b player = - evaluate_board g b (opponent player)"
proof -
  obtain x y where e: "foldl (evaluate_step g b player) (0, 0) (all_cells (gsize g)) = (x, y)"
    by (cases "foldl (evaluate_step g b player) (0, 0) (all_cells (gsize g))")
  with evaluate_fold_swap [OF assms(3), of g b 0 0 "all_cells (gsize g)"]
  have "foldl (evaluate_step g b (opponent player)) (0, 0) (all_cells (gsize g)) = (y, x)"
    by simp
  with e show ?thesis
    by (simp add: evaluate_board_def)
qed

theorem evaluate_board_antisymmetric_witness:
  "wf_board (gsize (default_game 8))
     [[0, 0, 0, 0, 0, 0, 0, 0], [0, 0, 0, 0, 0, 0, 0, 0], [0, 0, 0, 1, 0, 0, 0, 0],
      [0, 0, 0, 1, 1, 0, 0, 0], [0, 0, 0, 1, 2, 0, 0, 0], [0, 0, 0, 0, 0, 0, 0, 0],
      [0, 0, 0, 0, 0, 0, 0, 0], [0, 0, 0, 0, 0, 0, 0, 0]] \<and>
   board_shape (gsize (default_game 8)) (position_weights (default_game 8)) \<and>
   (BLACK = BLACK \<or> BLACK = WHITE) \<and>
   evaluate_board (default_game 8)
     [[0, 0, 0, 0, 0, 0, 0, 0], [0, 0, 0, 0, 0, 0, 0, 0], [0, 0, 0, 1, 0, 0, 0, 0],
      [0, 0, 0, 1, 1, 0, 0, 0], [0, 0, 0, 1, 2, 0, 0, 0], [0, 0, 0, 0, 0, 0, 0, 0],
      [0, 0, 0, 0, 0, 0, 0, 0], [0, 0, 0, 0, 0, 0, 0, 0]] BLACK = 3 \<and>
   evaluate_board (default_game 8)
     [[0, 0, 0, 0, 0, 0, 0, 0], [0, 0, 0, 0, 0, 0, 0, 0], [0, 0, 0, 1, 0, 0, 0, 0],
      [0, 0, 0, 1, 1, 0, 0, 0], [0, 0, 0, 1, 2, 0, 0, 0], [0, 0, 0, 0, 0, 0, 0, 0],
      [0, 0, 0, 0, 0, 0, 0, 0], [0, 0, 0, 0, 0, 0, 0, 0]] (opponent BLACK) = - 3"
proof -
  let ?b = "[[0, 0, 0, 0, 0, 0, 0, 0], [0, 0, 0, 0, 0, 0, 0, 0], [0, 0, 0, 1, 0, 0, 0, 0],
      [0, 0, 0, 1, 1, 0, 0, 0], [0, 0, 0, 1, 2, 0, 0, 0], [0, 0, 0, 0, 0, 0, 0, 0],
      [0, 0, 0, 0, 0, 0, 0, 0], [0, 0, 0, 0, 0, 0, 0, 0 :: int]]"
  have h1: "wf_board (gsize (default_game 8)) ?b"
    by code_simp
  have h2: "board_shape (gsize (default_game 8)) (position_weights (default_game 8))"
    by code_simp
  have h3: "BLACK = BLACK \<or> BLACK = WHITE"
    by simp
  have v: "evaluate_board (default_game 8) ?b BLACK = 3"
    by code_simp
  from evaluate_board_antisymmetric [OF h1 h2 h3] h1 h2 v show ?thesis
    by simp
qed

text \<open>
  Claim C3, evaluated on the code. On the size-8 game Black plays \<open>(2,3)\<close> and the turn is
  switched; in that state (White to move) White plays the legal move \<open>(2,2)\<close>, the turn
  is switched, and \<open>undo_move\<close> is called. The board and the move log are back at their
  values before White's move, but the current player is Black, not White: the history
  entry pushed by \<open>place_piece\<close> records the player who made the previous move.
\<close>

theorem undo_move_current_player:
  "(let g1 = switch_player (snd (place_piece (default_game 8) 2 3 BLACK));
        g2 = switch_player (snd (place_piece g1 2 2 WHITE));
        g3 = snd (undo_move g2)
    in fst (place_piece (default_game 8) 2 3 BLACK) \<and>
       current_player g1 = WHITE \<and>
       (2, 2) \<in> set (valid_moves g1 WHITE) \<and>
       fst (place_piece g1 2 2 WHITE) \<and>
       fst (undo_move g2) \<and>
       board g3 = board g1 \<and>
       move_log g3 = move_log g1 \<and>
       current_player g3 = BLACK)"
  by code_simp

end
